theory Spec2Isabelle
  imports Main
begin

section \<open>The mention scanner of parse\_mentions.c\<close>

text \<open>
  A \<open>char *\<close> that points at a NUL-terminated C string is modelled by the list of the
  bytes it points at; the terminating NUL is implicit at index \<open>length s\<close>, and a NUL
  byte inside the list ends the C string there, as it does in memory.  A pointer into the
  same buffer at or after \<open>src\<close> is the offset from \<open>src\<close>, and \<open>NULL\<close> is
  \<open>None\<close>.  The scanner never reads in front of its cursor, so the cursor itself is
  modelled by the text that starts there.

  The allocator belongs to the C library, not to the repository, and is a parameter of
  the model: \<open>usable n\<close> is the size of the block that \<open>malloc\<close> returns for a request
  of \<open>n\<close> bytes (\<open>malloc_usable_size\<close>).  C promises no more than \<open>n\<close> bytes.  The
  contents of a block are modelled as a value; a write behind the block is a fault.
\<close>

definition NUL :: char where
  "NUL = CHR 0x00"

text \<open>\<open>s[i]\<close> for \<open>i\<close> up to and including the terminator.\<close>

definition c_at :: "string \<Rightarrow> nat \<Rightarrow> char" where
  "c_at s i = (if i < length s then s ! i else NUL)"

text \<open>The value of a \<open>char\<close> in a comparison, \<open>char\<close> being signed (as on x86).\<close>

definition c_char :: "char \<Rightarrow> int" where
  "c_char c = (if (of_char c :: int) < 128 then of_char c else of_char c - 256)"

text \<open>
  \<open>ensure_int_str\<close>: the loop runs to the terminator and clears the flag at every byte
  outside \<open>'0'..'9'\<close> (48..57).
\<close>

fun ensure_int_str_loop :: "string \<Rightarrow> bool \<Rightarrow> bool" where
  "ensure_int_str_loop [] is_int_str = is_int_str"
| "ensure_int_str_loop (c # ptr) is_int_str =
     (if c = NUL then is_int_str
      else ensure_int_str_loop ptr
             (if c_char c > 57 \<or> c_char c < 48 then False else is_int_str))"

definition ensure_int_str :: "string \<Rightarrow> bool" where
  "ensure_int_str str = ensure_int_str_loop str True"

datatype MentionType = Error | User | Role | Channel | Emoji

text \<open>
  \<open>struct MentionNode\<close>: the \<open>next\<close> pointers are the spine of a list of nodes, whose
  head is the node that \<open>null_mention\<close> made in \<open>find_mentions\<close>.
\<close>

record MentionNode =
  id_field :: "string option"
  type_field :: MentionType

definition null_mention :: MentionNode where
  "null_mention = \<lparr>id_field = None, type_field = Error\<rparr>"

text \<open>
  What a run can end in besides its result; both are undefined behaviour of
  \<open>new_mention\<close>.

  \<^item> It subtracts \<open>lab\<close> from \<open>rab\<close> and copies from \<open>lab + 1\<close> without testing
    \<open>lab\<close>: a memory fault when \<open>lab\<close> is \<open>NULL\<close>.
  \<^item> It requests \<open>(rab - lab) - 1\<close> bytes for \<open>inner_ptr\<close>, copies that many and
    writes the terminator at index \<open>(rab - lab) - 1\<close>, one byte behind the request.
    When the block has no byte to spare, the terminator lands in the allocator's record
    of the next block.  What follows depends on the state of the heap: the terminator is
    overwritten when that record is next written, so that an identifier is read with
    bytes of the record behind it, or a later \<open>free\<close> finds the record damaged and
    aborts.  The model follows none of this: the run ends in \<open>HeapOverflow\<close>.
\<close>

datatype fault = NullPointerDereference | HeapOverflow

text \<open>
  Modelled from the C library (glibc, 64 bit), which is not part of the repository: the
  size of the block for a request of \<open>n\<close> bytes that is served from the heap.  Blocks
  are 24, 40, 56, ... bytes, so a request has a byte to spare unless it is one of these
  sizes itself.
\<close>

definition glibc_usable :: "nat \<Rightarrow> nat" where
  "glibc_usable n = max 24 (16 * ((n + 23) div 16) - 8)"

text \<open>
  \<open>new_mention\<close>.  \<open>inner_ptr\<close> holds the \<open>(rab - lab) - 1\<close> bytes after \<open>lab\<close>,
  then the terminator; none of the bytes is NUL when \<open>rab\<close> comes from \<open>strchr\<close>.
  With \<open>rab\<close> not behind \<open>lab\<close> the size of the request is negative, that is, huge:
  \<open>malloc\<close> returns \<open>NULL\<close> and the copy goes through it (\<open>find_mention\<close> never
  calls it so).
\<close>

definition new_mention ::
  "(nat \<Rightarrow> nat) \<Rightarrow> MentionNode \<Rightarrow> string \<Rightarrow> nat option \<Rightarrow> nat \<Rightarrow> fault + MentionNode" where
  "new_mention usable mention src lab rab =
     (case lab of
        None \<Rightarrow> Inl NullPointerDereference
      | Some l \<Rightarrow>
          if rab \<le> l then Inl NullPointerDereference
          else if usable ((rab - l) - 1) \<le> (rab - l) - 1 then Inl HeapOverflow
          else
          (let inner_ptr = take ((rab - l) - 1) (drop (l + 1) src) in
           if c_at inner_ptr 0 = CHR ''@'' then
             (let (type, offset) =
                    (if c_at inner_ptr 1 = CHR ''!'' then (User, 2::nat)
                     else if c_at inner_ptr 1 = CHR ''&'' then (Role, 2)
                     else (User, 1));
                  id_str = drop offset inner_ptr;
                  status = ensure_int_str id_str
              in if status
                 then Inr (mention\<lparr>id_field := Some id_str, type_field := type\<rparr>)
                 else Inr (mention\<lparr>type_field := Error\<rparr>))
           else if c_at inner_ptr 0 = CHR ''#'' then
             (let status = ensure_int_str (drop 1 inner_ptr);
                  id_str = drop 1 inner_ptr
              in Inr (mention\<lparr>id_field := Some id_str,
                               type_field := (if status then Channel else Error)\<rparr>))
           else if c_at inner_ptr 0 = CHR ''a'' \<or> c_at inner_ptr 0 = CHR '':'' then
             Inr (mention\<lparr>type_field := Emoji, id_field := Some inner_ptr\<rparr>)
           else Inr (mention\<lparr>type_field := Error\<rparr>)))"

text \<open>
  \<open>add_mention\<close>: the new node is linked behind the last node of the list, or
  destroyed.
\<close>

definition add_mention ::
  "(nat \<Rightarrow> nat) \<Rightarrow> MentionNode list \<Rightarrow> string \<Rightarrow> nat option \<Rightarrow> nat
     \<Rightarrow> fault + MentionNode list" where
  "add_mention usable mentions src lab rab =
     (case new_mention usable null_mention src lab rab of
        Inl f \<Rightarrow> Inl f
      | Inr next_node \<Rightarrow>
          if type_field next_node \<noteq> Error \<and> id_field next_node \<noteq> None
          then Inr (mentions @ [next_node])
          else Inr mentions)"

text \<open>\<open>find_closest_lab\<close>: walk back from \<open>rab\<close>, never below \<open>src\<close>.\<close>

fun find_closest_lab_loop :: "string \<Rightarrow> nat \<Rightarrow> nat" where
  "find_closest_lab_loop src lab_ptr =
     (if c_at src lab_ptr \<noteq> CHR ''<'' \<and> lab_ptr > 0
      then find_closest_lab_loop src (lab_ptr - 1)
      else lab_ptr)"

declare find_closest_lab_loop.simps [simp del]

definition find_closest_lab :: "string \<Rightarrow> nat \<Rightarrow> nat option" where
  "find_closest_lab src rab =
     (let lab_ptr = find_closest_lab_loop src rab in
      if lab_ptr = 0 \<and> c_at src lab_ptr \<noteq> CHR ''<'' then None else Some lab_ptr)"

text \<open>
  \<open>strchr\<close> of the C library: the offset of the first \<open>c\<close> in the string, the
  terminator included in the search.
\<close>

fun strchr :: "string \<Rightarrow> char \<Rightarrow> nat option" where
  "strchr [] c = (if c = NUL then Some 0 else None)"
| "strchr (x # s) c =
     (if x = c then Some 0
      else if x = NUL then None
      else map_option Suc (strchr s c))"

text \<open>
  \<open>find_mention\<close>: the pointer it returns (\<open>NULL\<close> or one past \<open>rab\<close>) and the list
  as \<open>add_mention\<close> left it.
\<close>

definition find_mention ::
  "(nat \<Rightarrow> nat) \<Rightarrow> string \<Rightarrow> MentionNode list
     \<Rightarrow> fault + (string option \<times> MentionNode list)" where
  "find_mention usable src mentions =
     (case strchr src CHR ''>'' of
        None \<Rightarrow> Inr (None, mentions)
      | Some rab \<Rightarrow>
          (let lab = find_closest_lab src rab in
           case add_mention usable mentions src lab rab of
             Inl f \<Rightarrow> Inl f
           | Inr mentions' \<Rightarrow> Inr (Some (drop (rab + 1) src), mentions')))"

text \<open>\<open>find_mentions\<close>: the loop runs until \<open>find_mention\<close> returns \<open>NULL\<close>.\<close>

function find_mentions_loop ::
  "(nat \<Rightarrow> nat) \<Rightarrow> string \<Rightarrow> MentionNode list \<Rightarrow> fault + MentionNode list" where
  "find_mentions_loop usable ptr mentions =
     (case find_mention usable ptr mentions of
        Inl f \<Rightarrow> Inl f
      | Inr (None, mentions') \<Rightarrow> Inr mentions'
      | Inr (Some ptr', mentions') \<Rightarrow> find_mentions_loop usable ptr' mentions')"
  by pat_completeness auto

termination
proof (relation "measure (\<lambda>(usable, ptr, mentions). length ptr)", goal_cases)
  case 1
  show ?case by simp
next
  case (2 usable ptr mentions r ptr_opt mentions' ptr')
  have rab_inside: "i < length s" if "strchr s CHR ''>'' = Some i" for s i
    using that by (induction s arbitrary: i) (auto simp: NUL_def split: if_splits)
  from 2 have "length ptr' < length ptr"
    by (auto simp: find_mention_def Let_def dest: rab_inside
             split: option.splits sum.splits)
  then show ?case by simp
qed

declare find_mentions_loop.simps [simp del]

definition find_mentions :: "(nat \<Rightarrow> nat) \<Rightarrow> string \<Rightarrow> fault + MentionNode list" where
  "find_mentions usable src = find_mentions_loop usable src [null_mention]"

subsection \<open>The notions of the specification\<close>

text \<open>An ASCII digit \<open>0\<close>--\<open>9\<close>.\<close>

definition is_ascii_digit :: "char \<Rightarrow> bool" where
  "is_ascii_digit c = (c \<in> set ''0123456789'')"

text \<open>
  The classification table of the specification (section 4.1), as a function of the
  interior of a token: the kind and the identifier, or nothing.
\<close>

definition spec_digits_only :: "MentionType \<Rightarrow> string \<Rightarrow> (MentionType \<times> string) option" where
  "spec_digits_only kind ident =
     (if list_all is_ascii_digit ident then Some (kind, ident) else None)"

definition spec_classify :: "string \<Rightarrow> (MentionType \<times> string) option" where
  "spec_classify inner =
     (if take 2 inner = ''@!'' then spec_digits_only User (drop 2 inner)
      else if take 2 inner = ''@&'' then spec_digits_only Role (drop 2 inner)
      else if take 1 inner = ''@'' then spec_digits_only User (drop 1 inner)
      else if take 1 inner = ''#'' then spec_digits_only Channel (drop 1 inner)
      else if take 1 inner = ''a'' \<or> take 1 inner = '':'' then Some (Emoji, inner)
      else None)"

text \<open>The records that a token with this interior adds, by the table: one or none.\<close>

definition spec_token_records :: "string \<Rightarrow> MentionNode list" where
  "spec_token_records inner =
     (case spec_classify inner of
        None \<Rightarrow> []
      | Some (kind, ident) \<Rightarrow> [\<lparr>id_field = Some ident, type_field = kind\<rparr>])"

text \<open>
  A record written back as a token (section 8, property 2): \<open><\<close>, the prefix of the
  kind, the identifier, \<open>>\<close>.  The table has two prefixes for \<open>User\<close>, the flag
  chooses the nickname one; the identifier of an emoji carries its marker itself.
\<close>

definition spec_prefix :: "bool \<Rightarrow> MentionType \<Rightarrow> string" where
  "spec_prefix nick kind =
     (case kind of User \<Rightarrow> (if nick then ''@!'' else ''@'') | Role \<Rightarrow> ''@&''
      | Channel \<Rightarrow> ''#'' | Emoji \<Rightarrow> [] | Error \<Rightarrow> [])"

definition spec_serialize :: "bool \<Rightarrow> MentionNode \<Rightarrow> string" where
  "spec_serialize nick n =
     ''<'' @ spec_prefix nick (type_field n)
           @ (case id_field n of None \<Rightarrow> [] | Some ident \<Rightarrow> ident) @ ''>''"

section \<open>Properties\<close>

subsection \<open>Strings, digits and the classification of one token\<close>

lemma c_at_simps [simp]:
  "c_at [] i = NUL" "c_at (x # xs) 0 = x" "c_at (x # xs) (Suc i) = c_at xs i"
  by (simp_all add: c_at_def)

lemma digit_test: "(c_char c > 57 \<or> c_char c < 48) = (\<not> is_ascii_digit c)"
  by (cases c) (simp add: c_char_def is_ascii_digit_def; blast)

lemma ensure_int_str_loop_eq:
  "ensure_int_str_loop s b = (b \<and> list_all is_ascii_digit (takeWhile (\<lambda>c. c \<noteq> NUL) s))"
  by (induction s arbitrary: b) (auto simp: digit_test)

lemma ensure_int_str_eq:
  assumes "NUL \<notin> set s"
  shows "ensure_int_str s = list_all is_ascii_digit s"
proof -
  from assms have "takeWhile (\<lambda>c. c \<noteq> NUL) s = s"
    by (induction s) auto
  then show ?thesis
    by (simp only: ensure_int_str_def ensure_int_str_loop_eq simp_thms)
qed

lemma new_mention_shape:
  "new_mention usable m (p @ CHR ''<'' # inner @ CHR ''>'' # rest) (Some (length p))
     (length p + (1 + length inner)) =
   new_mention usable m (x # inner) (Some 0) (Suc (length inner))"
  by (simp add: new_mention_def)

lemma add_mention_overflow:
  assumes "usable (length inner) \<le> length inner"
  shows "add_mention usable ms (x # inner) (Some 0) (Suc (length inner)) = Inl HeapOverflow"
  using assms by (simp add: add_mention_def new_mention_def)

lemma add_mention_token:
  assumes "NUL \<notin> set inner" and fits: "length inner < usable (length inner)"
  shows "add_mention usable ms (x # inner) (Some 0) (Suc (length inner)) =
         Inr (ms @ spec_token_records inner)"
proof -
  consider "inner = []" | c where "inner = [c]" | c c' r where "inner = c # c' # r"
    by (cases inner; cases "tl inner"; auto)
  then show ?thesis
  proof cases
    case 1
    then show ?thesis using fits
      by (simp add: add_mention_def new_mention_def spec_token_records_def
          spec_classify_def NUL_def)
  next
    case 2
    then show ?thesis using assms
      by (simp add: add_mention_def new_mention_def spec_token_records_def spec_classify_def
          spec_digits_only_def ensure_int_str_def null_mention_def)
         (auto simp: NUL_def)
  next
    case 3
    then have "NUL \<notin> set (c' # r)" "NUL \<notin> set r" using assms(1) by auto
    then have e: "ensure_int_str (c' # r) = list_all is_ascii_digit (c' # r)"
       "ensure_int_str r = list_all is_ascii_digit r"
      using ensure_int_str_eq by blast+
    show ?thesis using 3 fits
      by (simp add: add_mention_def new_mention_def spec_token_records_def spec_classify_def e
          spec_digits_only_def null_mention_def)
  qed
qed

lemma strchr_append:
  "c \<notin> set a \<Longrightarrow> NUL \<notin> set a \<Longrightarrow> strchr (a @ c # rest) c = Some (length a)"
  by (induction a) auto

lemma strchr_SomeD:
  "strchr s c = Some i \<Longrightarrow> c \<noteq> NUL \<Longrightarrow>
   \<exists>a rest. s = a @ c # rest \<and> length a = i \<and> c \<notin> set a \<and> NUL \<notin> set a"
proof (induction s arbitrary: i)
  case Nil
  then show ?case by simp
next
  case (Cons x s)
  show ?case
  proof (cases "x = c")
    case True
    with Cons.prems have "i = 0" by simp
    with True show ?thesis by auto
  next
    case False
    with Cons.prems obtain j where j: "x \<noteq> NUL" "strchr s c = Some j" "i = Suc j"
      by (auto split: if_splits)
    from Cons.IH [OF j(2) Cons.prems(2)] obtain a rest
      where "s = a @ c # rest" "length a = j" "c \<notin> set a" "NUL \<notin> set a"
      by blast
    with False j have "x # s = (x # a) @ c # rest \<and> length (x # a) = i
        \<and> c \<notin> set (x # a) \<and> NUL \<notin> set (x # a)"
      by auto
    then show ?thesis by blast
  qed
qed

lemma find_closest_lab_loop_found:
  "c_at src l = CHR ''<'' \<Longrightarrow> (\<forall>i. l < i \<and> i \<le> l + k \<longrightarrow> c_at src i \<noteq> CHR ''<'')
   \<Longrightarrow> find_closest_lab_loop src (l + k) = l"
proof (induction k)
  case 0
  then show ?case by (simp add: find_closest_lab_loop.simps [of src l])
next
  case (Suc k)
  then have "c_at src (l + Suc k) \<noteq> CHR ''<''" by simp
  then have "find_closest_lab_loop src (l + Suc k) = find_closest_lab_loop src (l + k)"
    by (simp add: find_closest_lab_loop.simps [of src "Suc (l + k)"])
  with Suc show ?case by simp
qed

lemma find_closest_lab_loop_none:
  "(\<forall>i\<le>k. c_at src i \<noteq> CHR ''<'') \<Longrightarrow> find_closest_lab_loop src k = 0"
proof (induction k)
  case 0
  then show ?case by (simp add: find_closest_lab_loop.simps [of src 0])
next
  case (Suc k)
  then have "find_closest_lab_loop src (Suc k) = find_closest_lab_loop src k"
    by (simp add: find_closest_lab_loop.simps [of src "Suc k"])
  with Suc show ?case by simp
qed

lemma c_at_append:
  "c_at (a @ b) i = (if i < length a then a ! i else c_at b (i - length a))"
  by (auto simp: c_at_def nth_append)

lemma find_closest_lab_None:
  assumes "CHR ''<'' \<notin> set a"
  shows "find_closest_lab (a @ CHR ''>'' # rest) (length a) = None"
proof -
  have "\<forall>i\<le>length a. c_at (a @ CHR ''>'' # rest) i \<noteq> CHR ''<''"
    using assms by (auto simp: c_at_append in_set_conv_nth)
  then have "find_closest_lab_loop (a @ CHR ''>'' # rest) (length a) = 0"
       and "c_at (a @ CHR ''>'' # rest) 0 \<noteq> CHR ''<''"
    by (simp_all add: find_closest_lab_loop_none)
  then show ?thesis by (simp add: find_closest_lab_def)
qed

lemma find_closest_lab_Some:
  assumes "CHR ''<'' \<notin> set inner"
  shows "find_closest_lab (p @ CHR ''<'' # inner @ CHR ''>'' # rest)
           (length p + (1 + length inner)) = Some (length p)"
proof -
  let ?src = "p @ CHR ''<'' # inner @ CHR ''>'' # rest"
  have at: "c_at ?src (length p) = CHR ''<''"
    by (simp add: c_at_append)
  have "c_at ?src i \<noteq> CHR ''<''" if "length p < i" "i \<le> length p + (1 + length inner)" for i
  proof -
    from that obtain j where j: "i = length p + Suc j" "j \<le> length inner"
      by (auto simp: less_iff_Suc_add)
    then have "c_at ?src i = c_at (inner @ CHR ''>'' # rest) j"
      by (simp add: c_at_append)
    also have "\<dots> \<noteq> CHR ''<''"
      using assms j(2) by (auto simp: c_at_append in_set_conv_nth)
    finally show ?thesis .
  qed
  then have "find_closest_lab_loop ?src (length p + (1 + length inner)) = length p"
    using at by (intro find_closest_lab_loop_found) auto
  then show ?thesis using at by (simp add: find_closest_lab_def)
qed

lemma find_mention_no_rab:
  "strchr src CHR ''>'' = None \<Longrightarrow> find_mention usable src ms = Inr (None, ms)"
  by (simp add: find_mention_def)

lemma find_mention_unmatched:
  assumes "CHR ''>'' \<notin> set a" "NUL \<notin> set a" "CHR ''<'' \<notin> set a"
  shows "find_mention usable (a @ CHR ''>'' # rest) ms = Inl NullPointerDereference"
  using assms
  by (simp add: find_mention_def strchr_append find_closest_lab_None add_mention_def
      new_mention_def)

lemma find_mention_shape:
  assumes "CHR ''>'' \<notin> set p" "NUL \<notin> set p"
    and "CHR ''<'' \<notin> set inner" "CHR ''>'' \<notin> set inner" "NUL \<notin> set inner"
  shows "find_mention usable (p @ CHR ''<'' # inner @ CHR ''>'' # rest) ms =
         (case add_mention usable ms (CHR ''<'' # inner) (Some 0) (Suc (length inner)) of
            Inl f \<Rightarrow> Inl f | Inr ms' \<Rightarrow> Inr (Some rest, ms'))"
proof -
  let ?src = "p @ CHR ''<'' # inner @ CHR ''>'' # rest"
  let ?rab = "length p + (1 + length inner)"
  have "strchr ((p @ CHR ''<'' # inner) @ CHR ''>'' # rest) CHR ''>'' =
      Some (length (p @ CHR ''<'' # inner))"
    using assms by (intro strchr_append) (auto simp: NUL_def)
  then have rab: "strchr ?src CHR ''>'' = Some ?rab"
    by simp
  have lab: "find_closest_lab ?src ?rab = Some (length p)"
    using assms(3) by (rule find_closest_lab_Some)
  have add: "add_mention usable ms ?src (Some (length p)) ?rab =
      add_mention usable ms (CHR ''<'' # inner) (Some 0) (Suc (length inner))"
    unfolding add_mention_def by (simp only: new_mention_shape [of _ _ _ _ _ "CHR ''<''"])
  have rest: "drop (?rab + 1) ?src = rest"
    by simp
  show ?thesis
    by (simp only: find_mention_def rab lab add rest option.case Let_def)
qed

lemma find_mention_token:
  assumes "CHR ''>'' \<notin> set p" "NUL \<notin> set p"
    and "CHR ''<'' \<notin> set inner" "CHR ''>'' \<notin> set inner" "NUL \<notin> set inner"
    and "length inner < usable (length inner)"
  shows "find_mention usable (p @ CHR ''<'' # inner @ CHR ''>'' # rest) ms =
         Inr (Some rest, ms @ spec_token_records inner)"
  using assms by (simp add: find_mention_shape add_mention_token)

lemma find_mention_overflow:
  assumes "CHR ''>'' \<notin> set p" "NUL \<notin> set p"
    and "CHR ''<'' \<notin> set inner" "CHR ''>'' \<notin> set inner" "NUL \<notin> set inner"
    and "usable (length inner) \<le> length inner"
  shows "find_mention usable (p @ CHR ''<'' # inner @ CHR ''>'' # rest) ms = Inl HeapOverflow"
  using assms by (simp add: find_mention_shape add_mention_overflow)

subsection \<open>One step of the loop, and an induction rule for it\<close>

lemma loop_done:
  "strchr src CHR ''>'' = None \<Longrightarrow> find_mentions_loop usable src ms = Inr ms"
  by (simp add: find_mentions_loop.simps [of usable src] find_mention_no_rab)

lemma loop_unmatched:
  assumes "CHR ''>'' \<notin> set a" "NUL \<notin> set a" "CHR ''<'' \<notin> set a"
  shows "find_mentions_loop usable (a @ CHR ''>'' # rest) ms = Inl NullPointerDereference"
  by (simp add: find_mentions_loop.simps [of usable "a @ CHR ''>'' # rest"]
      find_mention_unmatched [OF assms])

lemma loop_overflow:
  assumes "CHR ''>'' \<notin> set p" "NUL \<notin> set p"
    and "CHR ''<'' \<notin> set inner" "CHR ''>'' \<notin> set inner" "NUL \<notin> set inner"
    and "usable (length inner) \<le> length inner"
  shows "find_mentions_loop usable (p @ CHR ''<'' # inner @ CHR ''>'' # rest) ms =
         Inl HeapOverflow"
  using assms
  by (simp add: find_mentions_loop.simps [of usable "p @ CHR ''<'' # inner @ CHR ''>'' # rest"]
      find_mention_overflow)

lemma loop_token:
  assumes "CHR ''>'' \<notin> set p" "NUL \<notin> set p"
    and "CHR ''<'' \<notin> set inner" "CHR ''>'' \<notin> set inner" "NUL \<notin> set inner"
    and "length inner < usable (length inner)"
  shows "find_mentions_loop usable (p @ CHR ''<'' # inner @ CHR ''>'' # rest) ms =
         find_mentions_loop usable rest (ms @ spec_token_records inner)"
  using assms
  by (simp add: find_mentions_loop.simps [of usable "p @ CHR ''<'' # inner @ CHR ''>'' # rest"]
      find_mention_token)

lemma text_cases [case_names no_rab unmatched token]:
  obtains "strchr src CHR ''>'' = None"
  | a rest where "src = a @ CHR ''>'' # rest"
      "CHR ''>'' \<notin> set a" "NUL \<notin> set a" "CHR ''<'' \<notin> set a"
  | p inner rest where "src = p @ CHR ''<'' # inner @ CHR ''>'' # rest"
      "CHR ''>'' \<notin> set p" "NUL \<notin> set p"
      "CHR ''<'' \<notin> set inner" "CHR ''>'' \<notin> set inner" "NUL \<notin> set inner"
proof (cases "strchr src CHR ''>''")
  case None
  then show ?thesis by (rule that(1))
next
  case (Some i)
  then obtain a rest where a: "src = a @ CHR ''>'' # rest"
      "CHR ''>'' \<notin> set a" "NUL \<notin> set a"
    using strchr_SomeD [of src "CHR ''>''" i] by (auto simp: NUL_def)
  show ?thesis
  proof (cases "CHR ''<'' \<in> set a")
    case False
    with a show ?thesis by (intro that(2))
  next
    case True
    then obtain p inner where "a = p @ CHR ''<'' # inner" "CHR ''<'' \<notin> set inner"
      by (auto dest: split_list_last)
    with a show ?thesis by (intro that(3) [of p inner rest]) auto
  qed
qed

lemma loop_induct [case_names no_rab unmatched overflow token]:
  assumes "\<And>src ms. strchr src CHR ''>'' = None \<Longrightarrow> P src ms"
    and "\<And>a rest ms. CHR ''>'' \<notin> set a \<Longrightarrow> NUL \<notin> set a \<Longrightarrow> CHR ''<'' \<notin> set a
           \<Longrightarrow> P (a @ CHR ''>'' # rest) ms"
    and "\<And>p inner rest ms. CHR ''>'' \<notin> set p \<Longrightarrow> NUL \<notin> set p
           \<Longrightarrow> CHR ''<'' \<notin> set inner \<Longrightarrow> CHR ''>'' \<notin> set inner \<Longrightarrow> NUL \<notin> set inner
           \<Longrightarrow> usable (length inner) \<le> length inner
           \<Longrightarrow> P (p @ CHR ''<'' # inner @ CHR ''>'' # rest) ms"
    and "\<And>p inner rest ms. CHR ''>'' \<notin> set p \<Longrightarrow> NUL \<notin> set p
           \<Longrightarrow> CHR ''<'' \<notin> set inner \<Longrightarrow> CHR ''>'' \<notin> set inner \<Longrightarrow> NUL \<notin> set inner
           \<Longrightarrow> length inner < usable (length inner)
           \<Longrightarrow> P rest (ms @ spec_token_records inner)
           \<Longrightarrow> P (p @ CHR ''<'' # inner @ CHR ''>'' # rest) ms"
  shows "P src ms"
proof (induction "length src" arbitrary: src ms rule: less_induct)
  case (less src ms)
  show ?case
  proof (cases src rule: text_cases)
    case no_rab
    then show ?thesis by (rule assms(1))
  next
    case (unmatched a rest)
    then show ?thesis by (auto intro: assms(2))
  next
    case (token p inner rest)
    show ?thesis
    proof (cases "length inner < usable (length inner)")
      case True
      from token have "length rest < length src" by simp
      then have "P rest (ms @ spec_token_records inner)" by (rule less)
      with token True show ?thesis by (auto intro: assms(4))
    next
      case False
      with token show ?thesis by (auto intro: assms(3))
    qed
  qed
qed








subsection \<open>The whole loop\<close>

lemma token_records_length: "length (spec_token_records inner) \<le> 1"
  by (simp add: spec_token_records_def split: option.split)

lemma token_records_concat_length:
  "length (concat (map spec_token_records inners)) \<le> length inners"
proof (induction inners)
  case Nil
  then show ?case by simp
next
  case (Cons inner inners)
  then show ?case using token_records_length [of inner] by simp
qed

lemma loop_result:
  "find_mentions_loop usable src ms = Inr ms' \<Longrightarrow>
   \<exists>inners. ms' = ms @ concat (map spec_token_records inners)
     \<and> length inners \<le> count_list src CHR ''>''"
proof (induction src ms arbitrary: ms' rule: loop_induct [where usable = usable])
  case (no_rab src ms)
  then have "ms' = ms @ concat (map spec_token_records [])"
    by (simp add: loop_done)
  then show ?case by (intro exI [of _ "[]"]) simp
next
  case (unmatched a rest ms)
  then show ?case by (simp add: loop_unmatched)
next
  case (overflow p inner rest ms)
  then show ?case by (simp add: loop_overflow)
next
  case (token p inner rest ms)
  from token.prems have "find_mentions_loop usable rest (ms @ spec_token_records inner) = Inr ms'"
    by (simp add: loop_token token.hyps)
  from token.IH [OF this] obtain inners
    where inners: "ms' = (ms @ spec_token_records inner) @ concat (map spec_token_records inners)"
      "length inners \<le> count_list rest CHR ''>''"
    by blast
  have "ms' = ms @ concat (map spec_token_records (inner # inners))"
    using inners(1) by simp
  moreover have "length (inner # inners)
      \<le> count_list (p @ CHR ''<'' # inner @ CHR ''>'' # rest) CHR ''>''"
    using inners(2) by simp
  ultimately show ?case by blast
qed

lemma loop_prefix:
  "find_mentions_loop usable src (ms0 @ ms) =
     (case find_mentions_loop usable src ms of
        Inl f \<Rightarrow> Inl f | Inr ms' \<Rightarrow> Inr (ms0 @ ms'))"
proof (induction src ms rule: loop_induct [where usable = usable])
  case (no_rab src ms)
  then show ?case by (simp add: loop_done)
next
  case (unmatched a rest ms)
  then show ?case by (simp add: loop_unmatched)
next
  case (overflow p inner rest ms)
  then show ?case by (simp add: loop_overflow)
next
  case (token p inner rest ms)
  have "find_mentions_loop usable (p @ CHR ''<'' # inner @ CHR ''>'' # rest) (ms0 @ ms) =
        find_mentions_loop usable rest ((ms0 @ ms) @ spec_token_records inner)"
    by (rule loop_token) (fact token.hyps)+
  moreover have "find_mentions_loop usable (p @ CHR ''<'' # inner @ CHR ''>'' # rest) ms =
        find_mentions_loop usable rest (ms @ spec_token_records inner)"
    by (rule loop_token) (fact token.hyps)+
  ultimately show ?case
    using token.IH by simp
qed

lemma loop_accumulates:
  "find_mentions_loop usable src ms =
     (case find_mentions_loop usable src [] of
        Inl f \<Rightarrow> Inl f | Inr new \<Rightarrow> Inr (ms @ new))"
  using loop_prefix [of usable src ms "[]"] by simp

lemma loop_concat:
  "NUL \<notin> set a \<Longrightarrow> a = [] \<or> last a = CHR ''>'' \<Longrightarrow>
   find_mentions_loop usable (a @ b) ms =
     (case find_mentions_loop usable a ms of
        Inl f \<Rightarrow> Inl f | Inr ms' \<Rightarrow> find_mentions_loop usable b ms')"
proof (induction a ms rule: loop_induct [where usable = usable])
  case (no_rab a ms)
  have "a = []"
  proof (rule ccontr)
    assume "a \<noteq> []"
    with no_rab.prems have "CHR ''>'' \<in> set a"
      by (metis last_in_set)
    then obtain u v where uv: "a = u @ CHR ''>'' # v" "CHR ''>'' \<notin> set u"
      by (auto dest: split_list_first)
    with no_rab.prems have "NUL \<notin> set u" by simp
    with uv have "strchr a CHR ''>'' = Some (length u)"
      by (simp add: strchr_append)
    with no_rab.hyps show False by simp
  qed
  then show ?case by (simp add: loop_done NUL_def)
next
  case (unmatched a rest ms)
  then have "find_mentions_loop usable (a @ CHR ''>'' # (rest @ b)) ms =
      Inl NullPointerDereference"
    by (intro loop_unmatched)
  with unmatched show ?case by (simp add: loop_unmatched)
next
  case (overflow p inner rest ms)
  then have "find_mentions_loop usable (p @ CHR ''<'' # inner @ CHR ''>'' # (rest @ b)) ms =
      Inl HeapOverflow"
    by (intro loop_overflow)
  with overflow show ?case by (simp add: loop_overflow)
next
  case (token p inner rest ms)
  have whole: "find_mentions_loop usable (p @ CHR ''<'' # inner @ CHR ''>'' # (rest @ b)) ms =
        find_mentions_loop usable (rest @ b) (ms @ spec_token_records inner)"
    by (rule loop_token) (fact token.hyps)+
  have front: "find_mentions_loop usable (p @ CHR ''<'' # inner @ CHR ''>'' # rest) ms =
        find_mentions_loop usable rest (ms @ spec_token_records inner)"
    by (rule loop_token) (fact token.hyps)+
  from token.prems have "NUL \<notin> set rest" "rest = [] \<or> last rest = CHR ''>''"
    by (auto split: if_splits)
  from token.IH [OF this] whole front show ?case by simp
qed

subsection \<open>An unmatched closing bracket\<close>

text \<open>
  C1.  A \<open>>\<close> with no \<open><\<close> between the cursor and itself should end the scan with the
  records found so far, so that \<open>hello > <@123>\<close> gives the empty sequence.  In the code
  \<open>find_closest_lab\<close> returns \<open>NULL\<close> there, \<open>find_mention\<close> hands it to
  \<open>add_mention\<close> untested, and \<open>new_mention\<close> dereferences it: the run ends in a
  fault and returns nothing, whatever the allocator does.
\<close>

theorem unmatched_rab_faults:
  "find_mentions usable ''hello > <@123>'' = Inl NullPointerDereference"
proof -
  have "find_mentions_loop usable (''hello '' @ CHR ''>'' # '' <@123>'') [null_mention] =
      Inl NullPointerDereference"
    by (rule loop_unmatched) (simp_all add: NUL_def)
  then show ?thesis by (simp add: find_mentions_def)
qed

text \<open>
  C2.  The scan should return a sequence for every input.  On the one-byte text \<open>>\<close>
  the run of the code ends in the fault of \<open>new_mention\<close> on a \<open>NULL\<close> \<open>lab\<close>.
\<close>

theorem lone_rab_faults:
  "find_mentions usable ''>'' = Inl NullPointerDereference \<and>
   find_closest_lab ''>'' 0 = None \<and>
   new_mention usable null_mention ''>'' None 0 = Inl NullPointerDereference"
proof (intro conjI)
  have "find_mentions_loop usable ([] @ CHR ''>'' # []) [null_mention] =
      Inl NullPointerDereference"
    by (rule loop_unmatched) simp_all
  then show "find_mentions usable ''>'' = Inl NullPointerDereference"
    by (simp add: find_mentions_def)
  show "find_closest_lab ''>'' 0 = None"
    by code_simp
  show "new_mention usable null_mention ''>'' None 0 = Inl NullPointerDereference"
    by (simp add: new_mention_def)
qed

subsection \<open>Digit validation\<close>



subsection \<open>Order and length of the result\<close>

text \<open>
  C5.  A step of the loop leaves the list as it was or links one node, of a type other
  than \<open>Error\<close>, behind its last node; the loop as a whole only extends the list it
  started from.  At a token (the closest \<open><\<close> before the first \<open>>\<close> of the text, the
  interior between them) the step is determined by the table of the specification: an
  interior without a kind leaves the list as it is, an interior with a kind and an
  identifier links exactly that record, and the cursor moves behind the \<open>>\<close>; when the
  terminator of the interior does not fit into its block, the run ends in the heap fault
  instead.  So the records stand in the order of the text: when a text is cut behind a
  \<open>>\<close> (or at its start), the scan of the whole is the records of the front part
  followed by the records of the rest.
\<close>

theorem order_preserved:
  "(find_mention usable src mentions = Inr (ptr, stepped) \<longrightarrow>
      stepped = mentions \<or> (\<exists>node. stepped = mentions @ [node] \<and> type_field node \<noteq> Error))
   \<and> (find_mentions_loop usable src mentions = Inr final \<longrightarrow> (\<exists>new. final = mentions @ new))
   \<and> (CHR ''>'' \<notin> set before \<and> NUL \<notin> set before
        \<and> CHR ''<'' \<notin> set inner \<and> CHR ''>'' \<notin> set inner \<and> NUL \<notin> set inner \<longrightarrow>
       (spec_classify inner = None \<longrightarrow>
          find_mention usable (before @ CHR ''<'' # inner @ CHR ''>'' # after) mentions =
            (if length inner < usable (length inner)
             then Inr (Some after, mentions) else Inl HeapOverflow))
       \<and> (spec_classify inner = Some (kind, ident) \<longrightarrow>
          find_mention usable (before @ CHR ''<'' # inner @ CHR ''>'' # after) mentions =
            (if length inner < usable (length inner)
             then Inr (Some after, mentions @ [\<lparr>id_field = Some ident, type_field = kind\<rparr>])
             else Inl HeapOverflow)))
   \<and> (NUL \<notin> set front \<and> (front = [] \<or> last front = CHR ''>'')
        \<and> find_mentions usable front = Inr (null_mention # front_records)
        \<and> find_mentions usable rest = Inr (null_mention # rest_records) \<longrightarrow>
       find_mentions usable (front @ rest) = Inr (null_mention # front_records @ rest_records))"
proof (intro conjI impI)
  assume "find_mention usable src mentions = Inr (ptr, stepped)"
  then show "stepped = mentions \<or>
      (\<exists>node. stepped = mentions @ [node] \<and> type_field node \<noteq> Error)"
    by (auto simp: find_mention_def add_mention_def Let_def
        split: option.splits sum.splits if_splits)
next
  assume "find_mentions_loop usable src mentions = Inr final"
  then show "\<exists>new. final = mentions @ new"
    by (blast dest: loop_result)
next
  assume token: "CHR ''>'' \<notin> set before \<and> NUL \<notin> set before
        \<and> CHR ''<'' \<notin> set inner \<and> CHR ''>'' \<notin> set inner \<and> NUL \<notin> set inner"
  then have shape: "CHR ''>'' \<notin> set before" "NUL \<notin> set before"
      "CHR ''<'' \<notin> set inner" "CHR ''>'' \<notin> set inner" "NUL \<notin> set inner"
    by blast+
  have step: "find_mention usable (before @ CHR ''<'' # inner @ CHR ''>'' # after) mentions =
      (if length inner < usable (length inner)
       then Inr (Some after, mentions @ spec_token_records inner) else Inl HeapOverflow)"
  proof (cases "length inner < usable (length inner)")
    case True
    from find_mention_token [where usable = usable, OF shape True] True show ?thesis
      by (simp only: if_True)
  next
    case False
    then have over: "usable (length inner) \<le> length inner" by simp
    from find_mention_overflow [where usable = usable, OF shape over] False show ?thesis
      by (simp only: if_False)
  qed
  {
    assume "spec_classify inner = None"
    then show "find_mention usable (before @ CHR ''<'' # inner @ CHR ''>'' # after) mentions =
        (if length inner < usable (length inner)
         then Inr (Some after, mentions) else Inl HeapOverflow)"
      by (simp add: step spec_token_records_def)
  next
    assume "spec_classify inner = Some (kind, ident)"
    then show "find_mention usable (before @ CHR ''<'' # inner @ CHR ''>'' # after) mentions =
        (if length inner < usable (length inner)
         then Inr (Some after, mentions @ [\<lparr>id_field = Some ident, type_field = kind\<rparr>])
         else Inl HeapOverflow)"
      by (simp add: step spec_token_records_def)
  }
next
  assume cut: "NUL \<notin> set front \<and> (front = [] \<or> last front = CHR ''>'')
        \<and> find_mentions usable front = Inr (null_mention # front_records)
        \<and> find_mentions usable rest = Inr (null_mention # rest_records)"
  then have "find_mentions_loop usable (front @ rest) [null_mention] =
      find_mentions_loop usable rest (null_mention # front_records)"
    by (simp add: loop_concat find_mentions_def)
  also have "\<dots> = (case find_mentions_loop usable rest [] of
      Inl f \<Rightarrow> Inl f | Inr new \<Rightarrow> Inr ((null_mention # front_records) @ new))"
    by (rule loop_accumulates)
  finally have whole: "find_mentions usable (front @ rest) =
      (case find_mentions_loop usable rest [] of
         Inl f \<Rightarrow> Inl f | Inr new \<Rightarrow> Inr ((null_mention # front_records) @ new))"
    by (simp only: find_mentions_def)
  from cut have "(case find_mentions_loop usable rest [] of
      Inl f \<Rightarrow> Inl f | Inr new \<Rightarrow> Inr ([null_mention] @ new)) = Inr (null_mention # rest_records)"
    using loop_accumulates [of usable rest "[null_mention]"] by (simp add: find_mentions_def)
  then have "find_mentions_loop usable rest [] = Inr rest_records"
    by (simp split: sum.splits)
  with whole show "find_mentions usable (front @ rest) =
      Inr (null_mention # front_records @ rest_records)"
    by simp
qed

theorem order_preserved_witness:
  "(find_mention glibc_usable ''ab<@1>cd'' [null_mention] =
      Inr (Some ''cd'', [null_mention, \<lparr>id_field = Some ''1'', type_field = User\<rparr>])
    \<and> ([null_mention, \<lparr>id_field = Some ''1'', type_field = User\<rparr>] = [null_mention]
       \<or> (\<exists>node. [null_mention, \<lparr>id_field = Some ''1'', type_field = User\<rparr>] =
                  [null_mention] @ [node] \<and> type_field node \<noteq> Error)))
   \<and> (find_mentions_loop glibc_usable ''ab<@1>cd'' [null_mention] =
      Inr [null_mention, \<lparr>id_field = Some ''1'', type_field = User\<rparr>]
    \<and> (\<exists>new. [null_mention, \<lparr>id_field = Some ''1'', type_field = User\<rparr>] =
                [null_mention] @ new))
   \<and> (spec_classify ''@12x'' = None
    \<and> find_mention glibc_usable (''ab'' @ CHR ''<'' # ''@12x'' @ CHR ''>'' # ''cd'') [null_mention] =
        Inr (Some ''cd'', [null_mention]))
   \<and> (spec_classify ''#77'' = Some (Channel, ''77'')
    \<and> find_mention glibc_usable (''ab'' @ CHR ''<'' # ''#77'' @ CHR ''>'' # ''cd'') [null_mention] =
        Inr (Some ''cd'', [null_mention] @ [\<lparr>id_field = Some ''77'', type_field = Channel\<rparr>]))
   \<and> ((NUL \<notin> set ''<@1>x<#2>'' \<and> (''<@1>x<#2>'' = [] \<or> last ''<@1>x<#2>'' = CHR ''>'')
      \<and> find_mentions glibc_usable ''<@1>x<#2>'' =
          Inr (null_mention # [\<lparr>id_field = Some ''1'', type_field = User\<rparr>,
                               \<lparr>id_field = Some ''2'', type_field = Channel\<rparr>])
      \<and> find_mentions glibc_usable ''y<@&3>z'' =
          Inr (null_mention # [\<lparr>id_field = Some ''3'', type_field = Role\<rparr>]))
    \<and> find_mentions glibc_usable (''<@1>x<#2>'' @ ''y<@&3>z'') =
          Inr (null_mention # [\<lparr>id_field = Some ''1'', type_field = User\<rparr>,
                               \<lparr>id_field = Some ''2'', type_field = Channel\<rparr>]
                             @ [\<lparr>id_field = Some ''3'', type_field = Role\<rparr>]))"
proof -
  have step: "find_mention glibc_usable ''ab<@1>cd'' [null_mention] =
      Inr (Some ''cd'', [null_mention, \<lparr>id_field = Some ''1'', type_field = User\<rparr>])"
    by code_simp
  have run: "find_mentions_loop glibc_usable ''ab<@1>cd'' [null_mention] =
      Inr [null_mention, \<lparr>id_field = Some ''1'', type_field = User\<rparr>]"
    by code_simp
  have shape: "CHR ''>'' \<notin> set ''ab'' \<and> NUL \<notin> set ''ab''
        \<and> CHR ''<'' \<notin> set ''@12x'' \<and> CHR ''>'' \<notin> set ''@12x'' \<and> NUL \<notin> set ''@12x''"
    "CHR ''>'' \<notin> set ''ab'' \<and> NUL \<notin> set ''ab''
        \<and> CHR ''<'' \<notin> set ''#77'' \<and> CHR ''>'' \<notin> set ''#77'' \<and> NUL \<notin> set ''#77''"
    by (simp_all add: NUL_def)
  have kinds: "spec_classify ''@12x'' = None" "spec_classify ''#77'' = Some (Channel, ''77'')"
    by code_simp+
  have fits: "length ''@12x'' < glibc_usable (length ''@12x'')"
    "length ''#77'' < glibc_usable (length ''#77'')"
    by code_simp+
  have cut: "NUL \<notin> set ''<@1>x<#2>'' \<and> (''<@1>x<#2>'' = [] \<or> last ''<@1>x<#2>'' = CHR ''>'')
      \<and> find_mentions glibc_usable ''<@1>x<#2>'' =
          Inr (null_mention # [\<lparr>id_field = Some ''1'', type_field = User\<rparr>,
                               \<lparr>id_field = Some ''2'', type_field = Channel\<rparr>])
      \<and> find_mentions glibc_usable ''y<@&3>z'' =
          Inr (null_mention # [\<lparr>id_field = Some ''3'', type_field = Role\<rparr>])"
    by code_simp
  note rejected = order_preserved [of glibc_usable "''ab<@1>cd''" "[null_mention]" "Some ''cd''"
      "[null_mention, \<lparr>id_field = Some ''1'', type_field = User\<rparr>]"
      "[null_mention, \<lparr>id_field = Some ''1'', type_field = User\<rparr>]"
      "''ab''" "''@12x''" "''cd''" Channel "''77''"
      "''<@1>x<#2>''"
      "[\<lparr>id_field = Some ''1'', type_field = User\<rparr>, \<lparr>id_field = Some ''2'', type_field = Channel\<rparr>]"
      "''y<@&3>z''" "[\<lparr>id_field = Some ''3'', type_field = Role\<rparr>]"]
  note accepted = order_preserved [of glibc_usable "''ab<@1>cd''" "[null_mention]" "Some ''cd''"
      "[null_mention, \<lparr>id_field = Some ''1'', type_field = User\<rparr>]"
      "[null_mention, \<lparr>id_field = Some ''1'', type_field = User\<rparr>]"
      "''ab''" "''#77''" "''cd''" Channel "''77''"
      "''<@1>x<#2>''"
      "[\<lparr>id_field = Some ''1'', type_field = User\<rparr>, \<lparr>id_field = Some ''2'', type_field = Channel\<rparr>]"
      "''y<@&3>z''" "[\<lparr>id_field = Some ''3'', type_field = Role\<rparr>]"]
  from rejected shape(1) kinds(1) fits(1)
  have no_record: "find_mention glibc_usable (''ab'' @ CHR ''<'' # ''@12x'' @ CHR ''>'' # ''cd'')
      [null_mention] = Inr (Some ''cd'', [null_mention])"
    by (simp only: simp_thms if_True)
  from accepted shape(2) kinds(2) fits(2)
  have linked: "find_mention glibc_usable (''ab'' @ CHR ''<'' # ''#77'' @ CHR ''>'' # ''cd'')
      [null_mention] =
      Inr (Some ''cd'', [null_mention] @ [\<lparr>id_field = Some ''77'', type_field = Channel\<rparr>])"
    by (simp only: simp_thms if_True)
  from rejected step run cut no_record linked kinds show ?thesis
    by blast
qed

text \<open>
  C10.  A step of the loop that returns a pointer has passed exactly one \<open>>\<close> of the
  text and made the list at most one node longer.  So a returned list has, behind its head
  node, at most as many records as the text has \<open>>\<close> characters, and the empty text
  gives the head node alone.
\<close>

theorem length_bound:
  "(find_mention usable src mentions = Inr (Some ptr, stepped) \<longrightarrow>
      count_list src CHR ''>'' = Suc (count_list ptr CHR ''>'')
      \<and> length stepped \<le> Suc (length mentions))
   \<and> (find_mentions usable text = Inr final \<longrightarrow> length (tl final) \<le> count_list text CHR ''>'')
   \<and> find_mentions usable [] = Inr [null_mention]"
proof (intro conjI impI)
  assume step: "find_mention usable src mentions = Inr (Some ptr, stepped)"
  then obtain rab where rab: "strchr src CHR ''>'' = Some rab" "ptr = drop (rab + 1) src"
    by (auto simp: find_mention_def Let_def split: option.splits sum.splits)
  then obtain a rest where a: "src = a @ CHR ''>'' # rest" "length a = rab" "CHR ''>'' \<notin> set a"
    using strchr_SomeD [of src "CHR ''>''" rab] by (auto simp: NUL_def)
  with rab(2) have "ptr = rest" by simp
  with a show "count_list src CHR ''>'' = Suc (count_list ptr CHR ''>'')"
    by simp
  from step show "length stepped \<le> Suc (length mentions)"
    by (auto simp: find_mention_def add_mention_def Let_def
        split: option.splits sum.splits if_splits)
next
  assume "find_mentions usable text = Inr final"
  then obtain inners
    where "final = [null_mention] @ concat (map spec_token_records inners)"
      "length inners \<le> count_list text CHR ''>''"
    unfolding find_mentions_def by (blast dest: loop_result)
  then show "length (tl final) \<le> count_list text CHR ''>''"
    using token_records_concat_length [of inners] by simp
next
  show "find_mentions usable [] = Inr [null_mention]"
    by (simp add: find_mentions_def loop_done NUL_def)
qed

theorem length_bound_witness:
  "(find_mention glibc_usable ''<x> <@9>>'' [null_mention] =
      Inr (Some '' <@9>>'', [null_mention])
    \<and> count_list ''<x> <@9>>'' CHR ''>'' = Suc (count_list '' <@9>>'' CHR ''>'')
    \<and> length [null_mention] \<le> Suc (length [null_mention]))
   \<and> (find_mentions glibc_usable ''<x> <@9> <#'' =
        Inr [null_mention, \<lparr>id_field = Some ''9'', type_field = User\<rparr>]
    \<and> length (tl [null_mention, \<lparr>id_field = Some ''9'', type_field = User\<rparr>])
        \<le> count_list ''<x> <@9> <#'' CHR ''>'')"
proof -
  have step: "find_mention glibc_usable ''<x> <@9>>'' [null_mention] =
      Inr (Some '' <@9>>'', [null_mention])"
    by code_simp
  have scan: "find_mentions glibc_usable ''<x> <@9> <#'' =
        Inr [null_mention, \<lparr>id_field = Some ''9'', type_field = User\<rparr>]"
    by code_simp
  from length_bound [of glibc_usable "''<x> <@9>>''" "[null_mention]" "'' <@9>>''"
      "[null_mention]" "''<x> <@9> <#''"
      "[null_mention, \<lparr>id_field = Some ''9'', type_field = User\<rparr>]"]
    step scan
  show ?thesis by blast
qed

subsection \<open>Tokens whose interior fills its block\<close>

text \<open>
  The remaining properties fail where the terminator of \<open>inner_ptr\<close> is written behind
  its block.  With the blocks of glibc that is an interior of 24, 40, 56, ... bytes; the
  model ends such a run in \<open>HeapOverflow\<close>.
\<close>

lemma glibc_block_full: "glibc_usable 24 = 24 \<and> glibc_usable 40 = 40"
  by (simp add: glibc_usable_def)

text \<open>
  C4.  A token whose interior fails classification or digit validation should add no
  record and let the scan continue behind its \<open>>\<close>.  In the text below the first two
  tokens are scanned so (\<open>@x\<close> is rejected, the emoji of 25 bytes is linked); the third
  interior, 24 bytes that no prefix matches, fills its block, the terminator is written
  behind it, and the run does not continue.
\<close>

theorem rejected_token_overflows:
  "find_mentions glibc_usable ''<@x><:bbbbbbbbbbbbbbbbbbbbbbbb>'' =
     Inr [null_mention,
          \<lparr>id_field = Some '':bbbbbbbbbbbbbbbbbbbbbbbb'', type_field = Emoji\<rparr>]
   \<and> find_mentions glibc_usable
       ''<@x><:bbbbbbbbbbbbbbbbbbbbbbbb><xxxxxxxxxxxxxxxxxxxxxxxx>'' = Inl HeapOverflow"
  by code_simp

text \<open>
  C6.  \<open><@!d>\<close> and \<open><@d>\<close> should give the same record \<open>User d\<close> for every string
  \<open>d\<close> of digits.  For the 23 digits below the interior \<open>@!d\<close> has 25 bytes and gives
  the record, the interior \<open>@d\<close> has 24 bytes and overflows its block.
\<close>

theorem nickname_differs_at_block_size:
  "find_mentions glibc_usable ''<@!12345678901234567890123>'' =
     Inr [null_mention, \<lparr>id_field = Some ''12345678901234567890123'', type_field = User\<rparr>]
   \<and> find_mentions glibc_usable ''<@12345678901234567890123>'' = Inl HeapOverflow"
  by code_simp

text \<open>
  C7.  An interior that begins with \<open>:\<close> should give the record \<open>Emoji\<close> with the whole
  interior, unmodified, as its identifier (and \<open>@&\<close>, \<open>#\<close> with digits the records
  \<open>Role\<close>, \<open>Channel\<close>).  The emoji interior below has 24 bytes: the terminator of its
  copy, which is the identifier itself, is written behind the block.
\<close>

theorem emoji_identifier_overflows:
  "find_mentions glibc_usable ''<:name:123456789012345678><@1>'' = Inl HeapOverflow"
  by code_simp

text \<open>
  C8.  Writing the records of a scan back as tokens and scanning these should give the
  records again.  The interior \<open>#d\<close> below, 23 digits, has 24 bytes and overflows its
  block; the identifier that the run then reads is \<open>d\<close> with a byte of the allocator
  behind it (\<open>!\<close>, the size of the next block), and the token written back from such a
  record gives no record.
\<close>

theorem round_trip_breaks_at_block_size:
  "find_mentions glibc_usable ''<#12345678901234567890123>'' = Inl HeapOverflow
   \<and> spec_serialize nick \<lparr>id_field = Some ''12345678901234567890123!'', type_field = Channel\<rparr>
       = ''<#12345678901234567890123!>''
   \<and> find_mentions glibc_usable ''<#12345678901234567890123!>'' = Inr [null_mention]"
proof (intro conjI)
  show "find_mentions glibc_usable ''<#12345678901234567890123>'' = Inl HeapOverflow"
    by code_simp
  show "spec_serialize nick
      \<lparr>id_field = Some ''12345678901234567890123!'', type_field = Channel\<rparr>
       = ''<#12345678901234567890123!>''"
    by (simp add: spec_serialize_def spec_prefix_def)
  show "find_mentions glibc_usable ''<#12345678901234567890123!>'' = Inr [null_mention]"
    by code_simp
qed

text \<open>
  C9.  No identifier of a returned list should contain \<open><\<close> or \<open>>\<close>.  In the text
  below \<open><x>\<close> is rejected, and the emoji interior that follows, \<open>:\<close> and 39 times
  \<open>a\<close>, has 40 bytes and fills its block: its terminator is written into the size of
  the next block, whatever follows in the text.  When the block requested next is that of
  the third interior, 15370 bytes, this size is \<open>0x3c21\<close>, the bytes \<open>!\<close> and \<open><\<close>.
\<close>

theorem emoji_before_large_block_overflows:
  "find_mentions glibc_usable
     (''<x><:'' @ replicate 39 CHR ''a'' @ ''>'' @ ''<:'' @ replicate 15369 CHR ''b'' @ ''>'')
   = Inl HeapOverflow"
proof -
  have "find_mentions glibc_usable (''<x><:'' @ replicate 39 CHR ''a'' @ ''>'' @ rest) =
      Inl HeapOverflow" for rest
  proof -
    let ?emoji = "CHR '':'' # replicate 39 CHR ''a''"
    have first: "find_mentions_loop glibc_usable
        ([] @ CHR ''<'' # ''x'' @ CHR ''>'' # (CHR ''<'' # ?emoji @ CHR ''>'' # rest))
        [null_mention] =
      find_mentions_loop glibc_usable (CHR ''<'' # ?emoji @ CHR ''>'' # rest)
        ([null_mention] @ spec_token_records ''x'')"
      by (rule loop_token) (simp_all add: NUL_def glibc_usable_def)
    have "glibc_usable (length ?emoji) \<le> length ?emoji"
      by (simp add: glibc_usable_def)
    then have second: "find_mentions_loop glibc_usable
        ([] @ CHR ''<'' # ?emoji @ CHR ''>'' # rest) ([null_mention] @ spec_token_records ''x'') =
      Inl HeapOverflow"
      by (intro loop_overflow) (simp_all add: NUL_def)
    from first second show ?thesis
      by (simp add: find_mentions_def)
  qed
  then show ?thesis .
qed

end
